theory Spec2Isabelle
  imports Main "HOL-Library.AList" "HOL-Library.Multiset"
begin

section \<open>Data model (src/github.py)\<close>

text \<open>The dataclass \<open>Repository\<close>.\<close>

record repository =
  full_name :: string
  url :: string
  description :: string
  stars :: int
  language :: string
  topics :: "string list"
  is_fork :: bool
  readme :: string

text \<open>
  The exceptions that the modelled code can raise. \<open>RequestError\<close> and \<open>HTTPStatusError\<close>
  are the two subclasses of \<open>httpx.HTTPError\<close>; \<open>JSONDecodeError\<close> and \<open>BinasciiError\<close>
  are subclasses of \<open>ValueError\<close> and are not \<open>httpx.HTTPError\<close>.
\<close>

datatype error =
    RuntimeError | AttributeError | TypeError | KeyError | ValueError | OverflowError
  | RequestError | HTTPStatusError | JSONDecodeError | BinasciiError

definition is_HTTPError :: "error \<Rightarrow> bool" where
  "is_HTTPError e = (e = RequestError \<or> e = HTTPStatusError)"

text \<open>
  One element of the \<open>items\<close> array of a search response: a JSON object whose members
  may be absent (\<open>None\<close>). For \<open>description\<close> and \<open>language\<close>, \<open>None\<close> also stands for
  the JSON value null, which \<open>data.get(...) or ""\<close> treats alike.
\<close>

record api_item =
  item_full_name :: "string option"
  item_html_url :: "string option"
  item_description :: "string option"
  item_stargazers_count :: "int option"
  item_language :: "string option"
  item_topics :: "string list option"
  item_fork :: "bool option"

text \<open>\<open>Repository.from_api\<close>: subscripting a missing key raises \<open>KeyError\<close>.\<close>

definition from_api :: "api_item \<Rightarrow> error + repository" where
  "from_api data =
     (case item_full_name data of None \<Rightarrow> Inl KeyError
      | Some fn \<Rightarrow>
     (case item_html_url data of None \<Rightarrow> Inl KeyError
      | Some u \<Rightarrow>
     (case item_stargazers_count data of None \<Rightarrow> Inl KeyError
      | Some s \<Rightarrow>
        Inr \<lparr> full_name = fn, url = u,
              description = (case item_description data of None \<Rightarrow> [] | Some d \<Rightarrow> d),
              stars = s,
              language = (case item_language data of None \<Rightarrow> [] | Some l \<Rightarrow> l),
              topics = (case item_topics data of None \<Rightarrow> [] | Some ts \<Rightarrow> ts),
              is_fork = (case item_fork data of None \<Rightarrow> False | Some b \<Rightarrow> b),
              readme = [] \<rparr>)))"

section \<open>The HTTP collaborator\<close>

text \<open>
  A request as the client issues it: the search request with its five parameters, or the
  readme request of one repository.
\<close>

datatype request =
    Search_Request string string string nat int
  | Readme_Request string

text \<open>
  The \<open>content\<close> member of a readme response: a string that \<open>base64.b64decode\<close> rejects, or
  one that it accepts; the latter carries the text that
  \<open>.decode("utf-8", errors="replace")\<close> gives, which never fails.
\<close>

datatype b64_content = Invalid_Base64 | Base64_Of string

text \<open>
  What \<open>response.json()\<close> gives: a decode failure, a JSON value that is not an object, or
  an object with its \<open>items\<close> and \<open>content\<close> members (\<open>None\<close> when absent).
\<close>

datatype body =
    Not_Json
  | Json_Not_Object
  | Json_Object "api_item list option" "b64_content option"

text \<open>
  The outcome of \<open>client.get\<close>: the transport raises \<open>httpx.RequestError\<close>, or a response
  with a status code and a body arrives.
\<close>

datatype reply = Request_Failed | Reply int body

text \<open>
  \<open>response.raise_for_status()\<close> raises \<open>httpx.HTTPStatusError\<close> unless the status is 2xx.
\<close>

definition is_success :: "int \<Rightarrow> bool" where
  "is_success status = (200 \<le> status \<and> status \<le> 299)"

text \<open>
  The remote side, for the sequential search: it answers a request knowing the requests
  issued before it (so that any deterministic server, with state or without, is covered).
  The list of requests issued so far is the state that the search functions thread.
\<close>

type_synonym handler = "request list \<Rightarrow> request \<Rightarrow> reply"

section \<open>AsyncGitHubClient (src/github.py)\<close>

record client =
  token :: string
  max_concurrency :: int
  http_client :: "handler option"

text \<open>\<open>__init__\<close> leaves \<open>_client\<close> at \<open>None\<close>; \<open>__aenter__\<close> sets it.\<close>

definition AsyncGitHubClient :: "string \<Rightarrow> int \<Rightarrow> client" where
  "AsyncGitHubClient tok mc = \<lparr> token = tok, max_concurrency = mc, http_client = None \<rparr>"

definition aenter :: "client \<Rightarrow> handler \<Rightarrow> client" where
  "aenter c net = c \<lparr> http_client := Some net \<rparr>"

subsection \<open>Python helpers\<close>

text \<open>\<open>sep.join(xs)\<close>.\<close>

fun join :: "string \<Rightarrow> string list \<Rightarrow> string" where
  "join sep [] = []"
| "join sep [x] = x"
| "join sep (x # y # ys) = x @ sep @ join sep (y # ys)"

text \<open>\<open>xs[:n]\<close>: a negative \<open>n\<close> counts from the end.\<close>

definition slice_to :: "'a list \<Rightarrow> int \<Rightarrow> 'a list" where
  "slice_to xs n = (if 0 \<le> n then take (nat n) xs else take (length xs - nat (- n)) xs)"

text \<open>\<open>xs[i:j]\<close> for \<open>0 \<le> i \<le> j\<close>, the only use the source makes of it.\<close>

definition slice :: "'a list \<Rightarrow> nat \<Rightarrow> nat \<Rightarrow> 'a list" where
  "slice xs i j = take (j - i) (drop i xs)"

text \<open>\<open>range(start, stop, step)\<close> for a positive step.\<close>

function range_step :: "nat \<Rightarrow> nat \<Rightarrow> nat \<Rightarrow> nat list" where
  "range_step start stop step =
     (if start < stop \<and> 0 < step then start # range_step (start + step) stop step else [])"
  by pat_completeness auto
termination
  by (relation "measure (\<lambda>(start, stop, step). stop - start)") auto

declare range_step.simps [simp del]

subsection \<open>One paginated search\<close>

text \<open>The query string that \<open>_search_repos_single\<close> composes.\<close>

definition build_query :: "string \<Rightarrow> bool \<Rightarrow> string list option \<Rightarrow> string" where
  "build_query since_date exclude_forks keywords =
     (let query = ''created:>'' @ since_date;
          query = (if exclude_forks then query @ '' fork:false'' else query)
      in case keywords of
           None \<Rightarrow> query
         | Some [] \<Rightarrow> query
         | Some (k # ks) \<Rightarrow> query @ '' ('' @ join '' OR '' (k # ks) @ '')'')"

text \<open>
  The inner \<open>for item in items\<close> loop: each item is parsed and appended, and the loop
  breaks as soon as the running total reaches \<open>max_repos\<close>.
\<close>

fun append_items :: "int \<Rightarrow> api_item list \<Rightarrow> repository list \<Rightarrow> error + repository list" where
  "append_items max_repos [] repos = Inr repos"
| "append_items max_repos (item # items) repos =
     (case from_api item of
        Inl e \<Rightarrow> Inl e
      | Inr repo \<Rightarrow>
          (if max_repos \<le> int (length (repos @ [repo])) then Inr (repos @ [repo])
           else append_items max_repos items (repos @ [repo])))"

text \<open>
  One page request with the three statements that follow it: \<open>client.get\<close>,
  \<open>response.raise_for_status()\<close>, \<open>response.json()\<close> and \<open>data.get("items", [])\<close>.
\<close>

definition search_page :: "handler \<Rightarrow> request list \<Rightarrow> request \<Rightarrow> error + api_item list" where
  "search_page get log req =
     (case get log req of
        Request_Failed \<Rightarrow> Inl RequestError
      | Reply status b \<Rightarrow>
          (if \<not> is_success status then Inl HTTPStatusError
           else (case b of
                   Not_Json \<Rightarrow> Inl JSONDecodeError
                 | Json_Not_Object \<Rightarrow> Inl AttributeError
                 | Json_Object its cont \<Rightarrow> Inr (case its of None \<Rightarrow> [] | Some xs \<Rightarrow> xs))))"

definition page_request :: "string \<Rightarrow> int \<Rightarrow> request" where
  "page_request query page = Search_Request query ''stars'' ''desc'' 100 page"

text \<open>
  The \<open>while len(repos) < max_repos\<close> loop, from the state (\<open>repos\<close>, \<open>page\<close>) and the
  requests issued so far. Every exception of the body leaves the loop and the function.
\<close>

function search_loop ::
  "handler option \<Rightarrow> string \<Rightarrow> int \<Rightarrow> repository list \<Rightarrow> int \<Rightarrow> request list
     \<Rightarrow> (error + repository list) \<times> request list" where
  "search_loop hc query max_repos repos page log =
     (if int (length repos) < max_repos then
        (case hc of
           None \<Rightarrow> (Inl AttributeError, log)
         | Some get \<Rightarrow>
            (case search_page get log (page_request query page) of
               Inl e \<Rightarrow> (Inl e, log @ [page_request query page])
             | Inr items \<Rightarrow>
                 (if items = [] then (Inr repos, log @ [page_request query page])
                  else
                    (case append_items max_repos items repos of
                       Inl e \<Rightarrow> (Inl e, log @ [page_request query page])
                     | Inr repos' \<Rightarrow>
                         (if page + 1 > 10 then (Inr repos', log @ [page_request query page])
                          else
                            search_loop hc query max_repos repos' (page + 1)
                              (log @ [page_request query page]))))))
      else (Inr repos, log))"
  by pat_completeness auto
termination
  by (relation "measure (\<lambda>(hc, query, max_repos, repos, page, log). nat (10 - page))") auto

declare search_loop.simps [simp del]

definition search_repos_single ::
  "client \<Rightarrow> string \<Rightarrow> int \<Rightarrow> bool \<Rightarrow> string list option \<Rightarrow> request list
     \<Rightarrow> (error + repository list) \<times> request list" where
  "search_repos_single c since_date max_repos exclude_forks keywords log =
     search_loop (http_client c) (build_query since_date exclude_forks keywords)
       max_repos [] 1 log"

subsection \<open>Batching and merging\<close>

text \<open>
  \<open>[keywords[i:i + 6] for i in range(0, len(keywords), 6)]\<close>.
\<close>

definition MAX_KEYWORDS_PER_QUERY :: nat where
  "MAX_KEYWORDS_PER_QUERY = 6"

definition keyword_batches :: "string list \<Rightarrow> string list list" where
  "keyword_batches keywords =
     map (\<lambda>i. slice keywords i (i + MAX_KEYWORDS_PER_QUERY))
       (range_step 0 (length keywords) MAX_KEYWORDS_PER_QUERY)"

text \<open>
  \<open>all_repos\<close> is a dict, kept here in insertion order (the order \<open>all_repos.values()\<close>
  has). The inner loop adds a repository only under a name that is not yet a key.
\<close>

fun merge_batch ::
  "repository list \<Rightarrow> (string \<times> repository) list \<Rightarrow> (string \<times> repository) list" where
  "merge_batch [] all_repos = all_repos"
| "merge_batch (repo # batch_repos) all_repos =
     merge_batch batch_repos
       (if full_name repo \<in> fst ` set all_repos then all_repos
        else all_repos @ [(full_name repo, repo)])"

text \<open>The \<open>for batch in keyword_batches\<close> loop; an exception of one search leaves it.\<close>

fun search_batches ::
  "client \<Rightarrow> string \<Rightarrow> int \<Rightarrow> bool \<Rightarrow> string list list \<Rightarrow> (string \<times> repository) list
     \<Rightarrow> request list \<Rightarrow> (error + (string \<times> repository) list) \<times> request list" where
  "search_batches c since_date max_repos exclude_forks [] all_repos log = (Inr all_repos, log)"
| "search_batches c since_date max_repos exclude_forks (batch # batches) all_repos log =
     (case search_repos_single c since_date max_repos exclude_forks (Some batch) log of
        (Inl e, log') \<Rightarrow> (Inl e, log')
      | (Inr batch_repos, log') \<Rightarrow>
          search_batches c since_date max_repos exclude_forks batches
            (merge_batch batch_repos all_repos) log')"

text \<open>
  \<open>sorted(xs, key=lambda r: r.stars, reverse=True)\<close>: a stable sort, in which repositories
  of equal star count keep their order.
\<close>

definition sorted_by_stars_desc :: "repository list \<Rightarrow> repository list" where
  "sorted_by_stars_desc xs = sort_key (\<lambda>r. - stars r) xs"

text \<open>\<open>AsyncGitHubClient.search_repos\<close>.\<close>

definition search_repos ::
  "client \<Rightarrow> string \<Rightarrow> int \<Rightarrow> bool \<Rightarrow> string list option \<Rightarrow> request list
     \<Rightarrow> (error + repository list) \<times> request list" where
  "search_repos c since_date max_repos exclude_forks keywords log =
     (case http_client c of
        None \<Rightarrow> (Inl RuntimeError, log)
      | Some h \<Rightarrow>
          (case keywords of
             None \<Rightarrow> search_repos_single c since_date max_repos exclude_forks keywords log
           | Some ks \<Rightarrow>
               (if ks \<noteq> [] \<and> MAX_KEYWORDS_PER_QUERY < length ks then
                  (case search_batches c since_date max_repos exclude_forks
                          (keyword_batches ks) [] log of
                     (Inl e, log') \<Rightarrow> (Inl e, log')
                   | (Inr all_repos, log') \<Rightarrow>
                       (Inr (slice_to (sorted_by_stars_desc (map snd all_repos)) max_repos),
                        log'))
                else search_repos_single c since_date max_repos exclude_forks keywords log)))"

section \<open>The call of \<open>search_repos\<close> in \<open>run_pipeline_async\<close> (src/main.py)\<close>

text \<open>
  A keyword argument of a call of \<open>search_repos\<close>: one of the four parameters of the method
  with its value, or a keyword that names no parameter. The signature is
  \<open>search_repos(self, since_date, max_repos=1000, exclude_forks=True, keywords=None)\<close>.
  Python binds the arguments before the body runs: a keyword that names no parameter
  raises \<open>TypeError\<close>, and so does a call that gives no \<open>since_date\<close>.
\<close>

datatype keyword_argument =
    Kw_since_date string
  | Kw_max_repos int
  | Kw_exclude_forks bool
  | Kw_keywords "string list option"
  | Kw_unexpected string

fun bind_arguments ::
  "keyword_argument list \<Rightarrow> string option \<Rightarrow> int \<Rightarrow> bool \<Rightarrow> string list option
     \<Rightarrow> error + (string \<times> int \<times> bool \<times> string list option)" where
  "bind_arguments [] since_date max_repos exclude_forks keywords =
     (case since_date of
        None \<Rightarrow> Inl TypeError
      | Some d \<Rightarrow> Inr (d, max_repos, exclude_forks, keywords))"
| "bind_arguments (Kw_since_date d # kwargs) since_date max_repos exclude_forks keywords =
     bind_arguments kwargs (Some d) max_repos exclude_forks keywords"
| "bind_arguments (Kw_max_repos n # kwargs) since_date max_repos exclude_forks keywords =
     bind_arguments kwargs since_date n exclude_forks keywords"
| "bind_arguments (Kw_exclude_forks b # kwargs) since_date max_repos exclude_forks keywords =
     bind_arguments kwargs since_date max_repos b keywords"
| "bind_arguments (Kw_keywords ks # kwargs) since_date max_repos exclude_forks keywords =
     bind_arguments kwargs since_date max_repos exclude_forks ks"
| "bind_arguments (Kw_unexpected name # kwargs) since_date max_repos exclude_forks keywords =
     Inl TypeError"

definition search_repos_call ::
  "client \<Rightarrow> keyword_argument list \<Rightarrow> request list
     \<Rightarrow> (error + repository list) \<times> request list" where
  "search_repos_call c kwargs log =
     (case bind_arguments kwargs None 1000 True None of
        Inl e \<Rightarrow> (Inl e, log)
      | Inr (since_date, max_repos, exclude_forks, keywords) \<Rightarrow>
          search_repos c since_date max_repos exclude_forks keywords log)"

section \<open>RepoCache (src/cache.py)\<close>

text \<open>
  A calendar date is its proleptic Gregorian ordinal (\<open>date.toordinal()\<close>): day 1 is
  0001-01-01 and day 3652059 is 9999-12-31, the least and the greatest value of
  \<open>datetime.date\<close>. The functions of the libraries are parameters of the model:
  \<open>date.today()\<close> as an ordinal \<open>today\<close>; \<open>date.fromisoformat\<close> as a function from strings to
  ordinals that raises \<open>ValueError\<close> through \<open>Inl\<close>; \<open>json.loads\<close> and \<open>json.dumps\<close> as functions
  between the text of a file and the mapping.
\<close>

definition MINORDINAL :: int where
  "MINORDINAL = 1"

definition MAXORDINAL :: int where
  "MAXORDINAL = 3652059"

text \<open>\<open>timedelta(days=n)\<close> raises \<open>OverflowError\<close> when the magnitude of \<open>n\<close> exceeds 999999999.\<close>

definition timedelta :: "int \<Rightarrow> error + int" where
  "timedelta days = (if \<bar>days\<bar> \<le> 999999999 then Inr days else Inl OverflowError)"

text \<open>\<open>d - delta\<close> for a date \<open>d\<close> raises \<open>OverflowError\<close> when the result is not a date.\<close>

definition date_sub :: "int \<Rightarrow> int \<Rightarrow> error + int" where
  "date_sub d delta =
     (if MINORDINAL \<le> d - delta \<and> d - delta \<le> MAXORDINAL then Inr (d - delta)
      else Inl OverflowError)"

text \<open>
  The object: \<open>_data\<close> is a dict from names to ISO date strings, kept as the list of its
  items in insertion order.
\<close>

record repo_cache =
  cache_path :: string
  cache_days :: int
  data :: "(string \<times> string) list"

text \<open>
  The files of the directory, as \<open>Path.exists\<close> and \<open>Path.read_text\<close> see them: a path has no
  file, or a file with its text.
\<close>

type_synonym file_system = "string \<Rightarrow> string option"

text \<open>
  \<open>__init__\<close>: the \<open>except\<close> clause catches \<open>json.JSONDecodeError\<close> and no other exception.
\<close>

definition RepoCache_init ::
  "(string \<Rightarrow> error + (string \<times> string) list) \<Rightarrow> file_system \<Rightarrow> string \<Rightarrow> int
     \<Rightarrow> error + repo_cache" where
  "RepoCache_init loads fs path days =
     (case fs path of
        None \<Rightarrow> Inr \<lparr> cache_path = path, cache_days = days, data = [] \<rparr>
      | Some text \<Rightarrow>
          (case loads text of
             Inr d \<Rightarrow> Inr \<lparr> cache_path = path, cache_days = days, data = d \<rparr>
           | Inl e \<Rightarrow>
               (if e = JSONDecodeError
                then Inr \<lparr> cache_path = path, cache_days = days, data = [] \<rparr>
                else Inl e)))"


text \<open>
  The dict comprehension of \<open>prune\<close>: the items are visited in order, and the first date
  string that \<open>date.fromisoformat\<close> rejects raises.
\<close>

fun prune_items ::
  "(string \<Rightarrow> error + int) \<Rightarrow> int \<Rightarrow> (string \<times> string) list
     \<Rightarrow> error + (string \<times> string) list" where
  "prune_items fromisoformat cutoff [] = Inr []"
| "prune_items fromisoformat cutoff ((name, seen_date) # items) =
     (case fromisoformat seen_date of
        Inl e \<Rightarrow> Inl e
      | Inr d \<Rightarrow>
          (case prune_items fromisoformat cutoff items of
             Inl e \<Rightarrow> Inl e
           | Inr kept \<Rightarrow> Inr (if cutoff \<le> d then (name, seen_date) # kept else kept)))"

text \<open>\<open>prune\<close>: \<open>_data\<close> is assigned only when the comprehension has not raised.\<close>

definition prune :: "(string \<Rightarrow> error + int) \<Rightarrow> int \<Rightarrow> repo_cache \<Rightarrow> error + repo_cache" where
  "prune fromisoformat today c =
     (case timedelta (cache_days c) of
        Inl e \<Rightarrow> Inl e
      | Inr delta \<Rightarrow>
          (case date_sub today delta of
             Inl e \<Rightarrow> Inl e
           | Inr cutoff \<Rightarrow>
               (case prune_items fromisoformat cutoff (data c) of
                  Inl e \<Rightarrow> Inl e
                | Inr kept \<Rightarrow> Inr (c \<lparr> data := kept \<rparr>))))"

text \<open>
  \<open>Path.write_text\<close> opens the file for writing, which creates it or truncates it to
  length 0, then writes the text and closes the file. The operations on the file system
  are the opening and the writes, taken here character by character; what the file holds
  between two of them is what a crash at that moment leaves behind.
\<close>

datatype file_operation = Open_Truncate string | Write_Text string string

fun perform :: "file_operation \<Rightarrow> file_system \<Rightarrow> file_system" where
  "perform (Open_Truncate path) fs = fs(path \<mapsto> [])"
| "perform (Write_Text path text) fs =
     fs(path \<mapsto> (case fs path of None \<Rightarrow> text | Some old \<Rightarrow> old @ text))"

definition run_operations :: "file_operation list \<Rightarrow> file_system \<Rightarrow> file_system" where
  "run_operations ops fs = foldl (\<lambda>fs' op. perform op fs') fs ops"

definition write_text_operations :: "string \<Rightarrow> string \<Rightarrow> file_operation list" where
  "write_text_operations path text = Open_Truncate path # map (\<lambda>ch. Write_Text path [ch]) text"

definition write_text :: "string \<Rightarrow> string \<Rightarrow> file_system \<Rightarrow> file_system" where
  "write_text path text fs = run_operations (write_text_operations path text) fs"

text \<open>\<open>save\<close>: \<open>self.cache_path.write_text(json.dumps(self._data, indent=2))\<close>.\<close>

definition save ::
  "((string \<times> string) list \<Rightarrow> string) \<Rightarrow> repo_cache \<Rightarrow> file_system \<Rightarrow> file_system" where
  "save dumps c fs = write_text (cache_path c) (dumps (data c)) fs"

text \<open>The file system that a crash leaves when \<open>save\<close> has performed \<open>n\<close> operations.\<close>

definition save_interrupted ::
  "((string \<times> string) list \<Rightarrow> string) \<Rightarrow> repo_cache \<Rightarrow> file_system \<Rightarrow> nat \<Rightarrow> file_system" where
  "save_interrupted dumps c fs n =
     run_operations (take n (write_text_operations (cache_path c) (dumps (data c)))) fs"

section \<open>Pagination, as the specification words it\<close>

text \<open>
  The requests of pages 1 to \<open>k\<close> of one query, the items that page \<open>p\<close> returns when
  the pages before it were requested in order, and the running total of items after
  page \<open>k\<close>. Pagination stops after page \<open>k\<close> when that page is empty, or the running
  total has reached the cap, or \<open>k\<close> is the tenth page.
\<close>

definition requests_through :: "string \<Rightarrow> nat \<Rightarrow> request list" where
  "requests_through query k = map (\<lambda>p. page_request query (int p)) [1..<Suc k]"

definition page_items :: "handler \<Rightarrow> string \<Rightarrow> request list \<Rightarrow> nat \<Rightarrow> error + api_item list" where
  "page_items get query log p =
     search_page get (log @ requests_through query (p - 1)) (page_request query (int p))"

definition page_size :: "handler \<Rightarrow> string \<Rightarrow> request list \<Rightarrow> nat \<Rightarrow> nat" where
  "page_size get query log p =
     (case page_items get query log p of Inl e \<Rightarrow> 0 | Inr items \<Rightarrow> length items)"

definition running_total :: "handler \<Rightarrow> string \<Rightarrow> request list \<Rightarrow> nat \<Rightarrow> nat" where
  "running_total get query log k = (\<Sum>p\<leftarrow>[1..<Suc k]. page_size get query log p)"

definition stops_after :: "handler \<Rightarrow> string \<Rightarrow> int \<Rightarrow> request list \<Rightarrow> nat \<Rightarrow> bool" where
  "stops_after get query cap log k =
     (page_items get query log k = Inr [] \<or> cap \<le> int (running_total get query log k) \<or> 10 \<le> k)"

definition honours_per_page :: "handler \<Rightarrow> bool" where
  "honours_per_page get =
     (\<forall>log q s ord pp p st its cont.
        get log (Search_Request q s ord pp p) = Reply st (Json_Object (Some its) cont)
          \<longrightarrow> length its \<le> pp)"

text \<open>
  What the search does with the items it receives, said without the loop. \<open>parse_all\<close> parses
  a list of items, failing at the first that \<open>from_api\<close> rejects. \<open>items_through\<close> is the
  sequence of all items of the pages 1 to \<open>k\<close>. The search fails at page \<open>k\<close> when the request
  of that page raises, or when one of the items that count towards the cap (the first
  \<open>cap\<close> of the sequence) does not parse. Its outcome after \<open>k\<close> pages is the exception of
  the last request, or the parsed items of the pages 1 to \<open>k\<close>, cut at the cap.
\<close>

fun parse_all :: "api_item list \<Rightarrow> error + repository list" where
  "parse_all [] = Inr []"
| "parse_all (item # items) =
     (case from_api item of
        Inl e \<Rightarrow> Inl e
      | Inr repo \<Rightarrow> (case parse_all items of Inl e \<Rightarrow> Inl e | Inr repos \<Rightarrow> Inr (repo # repos)))"

definition items_through :: "handler \<Rightarrow> string \<Rightarrow> request list \<Rightarrow> nat \<Rightarrow> api_item list" where
  "items_through get query log k =
     concat (map (\<lambda>p. case page_items get query log p of Inl e \<Rightarrow> [] | Inr items \<Rightarrow> items)
               [1..<Suc k])"

definition fails_at :: "handler \<Rightarrow> string \<Rightarrow> int \<Rightarrow> request list \<Rightarrow> nat \<Rightarrow> bool" where
  "fails_at get query cap log k =
     (case page_items get query log k of
        Inl e \<Rightarrow> True
      | Inr items \<Rightarrow> isl (parse_all (take (nat cap) (items_through get query log k))))"

definition outcome ::
  "handler \<Rightarrow> string \<Rightarrow> int \<Rightarrow> request list \<Rightarrow> nat \<Rightarrow> error + repository list" where
  "outcome get query cap log k =
     (if k = 0 then Inr []
      else (case page_items get query log k of
              Inl e \<Rightarrow> Inl e
            | Inr items \<Rightarrow> parse_all (take (nat cap) (items_through get query log k))))"


section \<open>Batching and merging, as the specification words it\<close>

text \<open>
  Fixed-size chunking: the list is cut into consecutive pieces of \<open>n\<close> elements, the last
  piece holding what remains.
\<close>

fun chunks :: "nat \<Rightarrow> 'a list \<Rightarrow> 'a list list" where
  "chunks n xs = (if n = 0 \<or> xs = [] then [] else take n xs # chunks n (drop n xs))"

declare chunks.simps [simp del]

text \<open>
  One paginated search per batch, in the order of the batches, each starting when the one
  before it has returned; the per-batch results are collected in that order. An exception
  of a search ends the run.
\<close>

fun run_batches ::
  "client \<Rightarrow> string \<Rightarrow> int \<Rightarrow> bool \<Rightarrow> string list list \<Rightarrow> request list
     \<Rightarrow> (error + repository list list) \<times> request list" where
  "run_batches c since_date max_repos exclude_forks [] log = (Inr [], log)"
| "run_batches c since_date max_repos exclude_forks (batch # batches) log =
     (case search_repos_single c since_date max_repos exclude_forks (Some batch) log of
        (Inl e, log') \<Rightarrow> (Inl e, log')
      | (Inr batch_repos, log') \<Rightarrow>
          (case run_batches c since_date max_repos exclude_forks batches log' of
             (Inl e, log'') \<Rightarrow> (Inl e, log'')
           | (Inr results, log'') \<Rightarrow> (Inr (batch_repos # results), log'')))"

text \<open>
  Deduplication by identifier in which the earliest copy wins: a repository stays, and
  every later repository of the same name is dropped.
\<close>

fun first_wins :: "repository list \<Rightarrow> repository list" where
  "first_wins [] = []"
| "first_wins (r # rs) = r # first_wins (filter (\<lambda>x. full_name x \<noteq> full_name r) rs)"

text \<open>Star counts never increase along the list.\<close>

definition stars_descending :: "repository list \<Rightarrow> bool" where
  "stars_descending xs = sorted_wrt (\<lambda>a b. stars b \<le> stars a) xs"

section \<open>Example inputs\<close>

definition example_item :: "string \<Rightarrow> int \<Rightarrow> api_item" where
  "example_item name n =
     \<lparr> item_full_name = Some name, item_html_url = Some (''https://github.com/'' @ name),
       item_description = None, item_stargazers_count = Some n, item_language = None,
       item_topics = None, item_fork = None \<rparr>"

definition example_repo :: "string \<Rightarrow> int \<Rightarrow> repository" where
  "example_repo name n =
     \<lparr> full_name = name, url = ''https://github.com/'' @ name, description = [], stars = n,
       language = [], topics = [], is_fork = False, readme = [] \<rparr>"

definition two_page_server :: handler where
  "two_page_server log req =
     (case req of
        Search_Request q s ord pp p \<Rightarrow>
          Reply 200 (Json_Object
            (Some (take pp (if length log < 2 then [example_item ''o/r'' 7] else []))) None)
      | Readme_Request name \<Rightarrow> Reply 404 Not_Json)"
definition oversized_page_server :: handler where
  "oversized_page_server log req =
     (case req of
        Search_Request q s ord pp p \<Rightarrow>
          Reply 200 (Json_Object
            (Some (if p = 1 then replicate 1001 (example_item ''o/r'' 7) else [])) None)
      | Readme_Request name \<Rightarrow> Reply 404 Not_Json)"

definition two_batch_server :: handler where
  "two_batch_server log req =
     (case req of
        Search_Request q s ord pp p \<Rightarrow>
          Reply 200 (Json_Object
            (Some (take pp
               (if length log = 0 then [example_item ''o/a'' 5, example_item ''o/b'' 9]
                else if length log = 1 then [example_item ''o/b'' 1, example_item ''o/c'' 7]
                else []))) None)
      | Readme_Request name \<Rightarrow> Reply 404 Not_Json)"

definition seven_keywords :: "string list" where
  "seven_keywords = [''k1'', ''k2'', ''k3'', ''k4'', ''k5'', ''k6'', ''k7'']"

text \<open>
  For the cache: 2026-11-04 is day 739924; a parser that knows three dates, 40, 30 and 5
  days before it; a cache of three entries with those dates; and stand-ins for
  \<open>json.loads\<close> and \<open>json.dumps\<close> that know the text of an empty object and of one entry.
\<close>

definition example_fromisoformat :: "string \<Rightarrow> error + int" where
  "example_fromisoformat s =
     (if s = ''2026-09-25'' then Inr 739884
      else if s = ''2026-10-05'' then Inr 739894
      else if s = ''2026-10-30'' then Inr 739919
      else Inl ValueError)"

definition example_cache :: "int \<Rightarrow> repo_cache" where
  "example_cache days =
     \<lparr> cache_path = ''seen_repos.json'', cache_days = days,
       data = [(''old/repo'', ''2026-09-25''), (''edge/repo'', ''2026-10-05''),
               (''recent/repo'', ''2026-10-30'')] \<rparr>"

definition example_loads :: "string \<Rightarrow> error + (string \<times> string) list" where
  "example_loads text =
     (if text = ''{}'' then Inr []
      else if text = ''{\"o/r\": \"2026-10-30\"}'' then Inr [(''o/r'', ''2026-10-30'')]
      else Inl JSONDecodeError)"

definition example_dumps :: "(string \<times> string) list \<Rightarrow> string" where
  "example_dumps d = (if d = [] then ''{}'' else ''{\"o/r\": \"2026-10-30\"}'')"

definition example_files :: file_system where
  "example_files path =
     (if path = ''seen_repos.json'' then Some ''{\"o/r\": \"2026-10-30\"}''
      else if path = ''empty.json'' then Some []
      else None)"

section \<open>Verified properties\<close>

subsection \<open>Use before initialisation\<close>

text \<open>
  C10: a call of \<open>search_repos\<close> on a client whose context manager has not been entered
  raises \<open>RuntimeError\<close> and issues no request; the freshly constructed client is in that
  state, and entering the context leaves it.
\<close>

theorem search_repos_uninitialised:
  "search_repos (AsyncGitHubClient tok mc) since_date max_repos exclude_forks keywords log
     = (Inl RuntimeError, log)
   \<and> http_client (AsyncGitHubClient tok mc) = None
   \<and> http_client (aenter (AsyncGitHubClient tok mc) net) = Some net"
  by (simp add: search_repos_def AsyncGitHubClient_def aenter_def)


subsection \<open>Pagination of one batch\<close>

lemma append_items_length:
  "append_items cap xs repos = Inr out \<Longrightarrow>
     length repos \<le> length out \<and> length out \<le> length repos + length xs"
  by (induction cap xs repos rule: append_items.induct) (auto split: sum.splits if_splits)

lemma append_items_exact:
  "append_items cap xs repos = Inr out \<Longrightarrow> int (length repos) < cap \<Longrightarrow>
     length out = min (length repos + length xs) (nat cap)"
  by (induction cap xs repos rule: append_items.induct) (auto split: sum.splits if_splits)

lemma requests_through_Suc:
  "requests_through query (Suc k) = requests_through query k @ [page_request query (int (Suc k))]"
  by (simp add: requests_through_def)

lemma requests_through_0: "requests_through query 0 = []"
  by (simp add: requests_through_def)

lemma running_total_Suc:
  "running_total get query log (Suc k) = running_total get query log k + page_size get query log (Suc k)"
  by (simp add: running_total_def)

lemma page_items_Suc:
  "page_items get query log (Suc j) =
     search_page get (log @ requests_through query j) (page_request query (int (Suc j)))"
  by (simp add: page_items_def)

lemma search_loop_done:
  "\<not> int (length repos) < cap \<Longrightarrow> search_loop hc query cap repos page log = (Inr repos, log)"
  by (subst search_loop.simps) simp

lemma search_loop_step:
  assumes "int (length repos) < cap"
  shows "search_loop (Some get) query cap repos page log =
     (case search_page get log (page_request query page) of
        Inl e \<Rightarrow> (Inl e, log @ [page_request query page])
      | Inr items \<Rightarrow>
          (if items = [] then (Inr repos, log @ [page_request query page])
           else (case append_items cap items repos of
                   Inl e \<Rightarrow> (Inl e, log @ [page_request query page])
                 | Inr repos' \<Rightarrow>
                     (if page + 1 > 10 then (Inr repos', log @ [page_request query page])
                      else search_loop (Some get) query cap repos' (page + 1)
                             (log @ [page_request query page])))))"
  using assms by (subst search_loop.simps) simp

lemma parse_all_append:
  "parse_all (xs @ ys) =
     (case parse_all xs of
        Inl e \<Rightarrow> Inl e
      | Inr rs \<Rightarrow> (case parse_all ys of Inl e \<Rightarrow> Inl e | Inr rs' \<Rightarrow> Inr (rs @ rs')))"
  by (induction xs) (auto split: sum.splits)

lemma parse_all_length: "parse_all xs = Inr rs \<Longrightarrow> length rs = length xs"
  by (induction xs arbitrary: rs) (auto split: sum.splits)

lemma append_items_parse:
  "int (length repos) < cap \<Longrightarrow>
     append_items cap items repos =
       (case parse_all (take (nat cap - length repos) items) of
          Inl e \<Rightarrow> Inl e
        | Inr rs \<Rightarrow> Inr (repos @ rs))"
proof (induction items arbitrary: repos)
  case Nil
  then show ?case by simp
next
  case (Cons item items)
  have "length repos < nat cap" using Cons.prems by linarith
  then obtain n where n: "nat cap - length repos = Suc n"
    by (cases "nat cap - length repos") simp_all
  show ?case
  proof (cases "from_api item")
    case (Inl e)
    then show ?thesis by (simp add: n)
  next
    case (Inr repo)
    show ?thesis
    proof (cases "cap \<le> int (length (repos @ [repo]))")
      case True
      then have "n = 0" using n Cons.prems by simp
      then show ?thesis using Inr True n by simp
    next
      case False
      then have under: "int (length (repos @ [repo])) < cap" by simp
      have "nat cap - length (repos @ [repo]) = n" using n by simp
      then show ?thesis
        using Inr False Cons.IH[OF under] n by (simp split: sum.splits)
    qed
  qed
qed

lemma items_through_Suc:
  "items_through get query log (Suc k) =
     items_through get query log k
       @ (case page_items get query log (Suc k) of Inl e \<Rightarrow> [] | Inr items \<Rightarrow> items)"
  by (simp add: items_through_def)

lemma items_through_0: "items_through get query log 0 = []"
  by (simp add: items_through_def)

lemma running_total_items:
  "running_total get query log k = length (items_through get query log k)"
  by (induction k)
     (simp_all add: running_total_Suc items_through_Suc items_through_0 running_total_def
        page_size_def split: sum.splits)

lemma take_all_items:
  "int (length xs) < cap \<Longrightarrow> take (nat cap) xs = xs"
  by simp

lemma page_outcome:
  assumes prev: "parse_all (items_through get query log j) = Inr repos"
    and under: "int (length repos) < cap"
    and items: "page_items get query log (Suc j) = Inr items"
  shows "parse_all (take (nat cap) (items_through get query log (Suc j)))
           = append_items cap items repos"
proof -
  have len: "length (items_through get query log j) = length repos"
    using parse_all_length[OF prev] by simp
  then have "take (nat cap) (items_through get query log (Suc j))
               = items_through get query log j @ take (nat cap - length repos) items"
    using under items by (simp add: items_through_Suc)
  then show ?thesis
    using prev by (simp add: parse_all_append append_items_parse[OF under])
qed

lemma search_loop_outcome:
  assumes "j < 10"
    and "parse_all (items_through get query log j) = Inr repos"
    and "\<forall>i. 1 \<le> i \<and> i \<le> j \<longrightarrow>
            \<not> stops_after get query cap log i \<and> \<not> fails_at get query cap log i"
  shows "\<exists>k. j \<le> k \<and> k \<le> 10
           \<and> search_loop (Some get) query cap repos (int (Suc j)) (log @ requests_through query j)
               = ((if k = j then Inr repos else outcome get query cap log k),
                  log @ requests_through query k)
           \<and> (k = j \<longleftrightarrow> cap \<le> int (length repos))
           \<and> (\<forall>i. 1 \<le> i \<and> i < k \<longrightarrow>
                 \<not> stops_after get query cap log i \<and> \<not> fails_at get query cap log i)
           \<and> (j < k \<longrightarrow> stops_after get query cap log k \<or> fails_at get query cap log k)"
  using assms
proof (induction "10 - j" arbitrary: j repos rule: less_induct)
  case less
  let ?req = "page_request query (int (Suc j))"
  let ?log = "log @ requests_through query j"
  let ?run = "search_loop (Some get) query cap repos (int (Suc j)) ?log"
  have through: "log @ requests_through query (Suc j) = ?log @ [?req]"
    by (simp add: requests_through_Suc)
  have before: "\<forall>i. 1 \<le> i \<and> i < Suc j \<longrightarrow>
                  \<not> stops_after get query cap log i \<and> \<not> fails_at get query cap log i"
    using less.prems(3) by auto
  have prev_len: "length (items_through get query log j) = length repos"
    using parse_all_length[OF less.prems(2)] by simp
  show ?case
  proof (cases "int (length repos) < cap")
    case False
    then have "?run = (Inr repos, ?log)"
      by (simp add: search_loop_done)
    then show ?thesis
      using False less.prems(1,3) by (intro exI[of _ j]) auto
  next
    case under: True
    note step = search_loop_step[OF under, of get query "int (Suc j)" ?log]
    show ?thesis
    proof (cases "search_page get ?log ?req")
      case (Inl e)
      then have items: "page_items get query log (Suc j) = Inl e"
        by (simp add: page_items_Suc)
      have run: "?run = (outcome get query cap log (Suc j), log @ requests_through query (Suc j))"
        using step Inl items through by (simp add: outcome_def)
      have "fails_at get query cap log (Suc j)"
        using items by (simp add: fails_at_def)
      then show ?thesis
        using run less.prems(1) before under by (intro exI[of _ "Suc j"]) auto
    next
      case (Inr items)
      then have items: "page_items get query log (Suc j) = Inr items"
        by (simp add: page_items_Suc)
      have out: "outcome get query cap log (Suc j) = append_items cap items repos"
        using page_outcome[OF less.prems(2) under items] items by (simp add: outcome_def)
      have fails: "fails_at get query cap log (Suc j) = isl (append_items cap items repos)"
        using page_outcome[OF less.prems(2) under items] items by (simp add: fails_at_def)
      have total: "running_total get query log (Suc j) = length repos + length items"
        using prev_len items by (simp add: running_total_items items_through_Suc)
      show ?thesis
      proof (cases "items = []")
        case True
        then have run: "?run = (outcome get query cap log (Suc j),
                                log @ requests_through query (Suc j))"
          using step Inr through out by simp
        have "stops_after get query cap log (Suc j)"
          using items True by (simp add: stops_after_def)
        then show ?thesis
          using run less.prems(1) before under by (intro exI[of _ "Suc j"]) auto
      next
        case nonempty: False
        show ?thesis
        proof (cases "append_items cap items repos")
          case (Inl e)
          then have run: "?run = (outcome get query cap log (Suc j),
                                  log @ requests_through query (Suc j))"
            using step Inr nonempty through out by simp
          have "fails_at get query cap log (Suc j)"
            using fails Inl by simp
          then show ?thesis
            using run less.prems(1) before under by (intro exI[of _ "Suc j"]) auto
        next
          case app: (Inr repos')
          have len: "length repos' = min (length repos + length items) (nat cap)"
            using append_items_exact[OF app under] .
          have nofail: "\<not> fails_at get query cap log (Suc j)"
            using fails app by simp
          show ?thesis
          proof (cases "int (Suc j) + 1 > 10")
            case True
            then have run: "?run = (outcome get query cap log (Suc j),
                                    log @ requests_through query (Suc j))"
              using step Inr nonempty app through out by simp
            have "stops_after get query cap log (Suc j)"
              using True by (simp add: stops_after_def)
            then show ?thesis
              using run less.prems(1) before under by (intro exI[of _ "Suc j"]) auto
          next
            case more: False
            then have rec: "?run = search_loop (Some get) query cap repos' (int (Suc (Suc j)))
                              (log @ requests_through query (Suc j))"
              using step Inr nonempty app through by (simp add: add.commute)
            show ?thesis
            proof (cases "cap \<le> int (running_total get query log (Suc j))")
              case True
              then have "\<not> int (length repos') < cap"
                using len total by auto
              then have run: "?run = (outcome get query cap log (Suc j),
                                      log @ requests_through query (Suc j))"
                using rec out app by (simp add: search_loop_done)
              have "stops_after get query cap log (Suc j)"
                using True by (simp add: stops_after_def)
              then show ?thesis
                using run less.prems(1) before under by (intro exI[of _ "Suc j"]) auto
            next
              case False
              then have len': "length repos' = length repos + length items"
                using len total by auto
              have all_items: "int (length (items_through get query log (Suc j))) < cap"
                using False total by (simp add: running_total_items)
              have parsed: "parse_all (items_through get query log (Suc j)) = Inr repos'"
                using page_outcome[OF less.prems(2) under items] app all_items by simp
              have cont: "\<not> stops_after get query cap log (Suc j)"
                using False more items nonempty by (simp add: stops_after_def)
              have all: "\<forall>i. 1 \<le> i \<and> i \<le> Suc j \<longrightarrow>
                           \<not> stops_after get query cap log i \<and> \<not> fails_at get query cap log i"
                using before cont nofail by (auto simp: le_Suc_eq)
              have "Suc j < 10" using more by simp
              have smaller: "10 - Suc j < 10 - j" using \<open>Suc j < 10\<close> by simp
              from less.hyps[OF smaller \<open>Suc j < 10\<close> parsed all]
              obtain k where k: "Suc j \<le> k" "k \<le> 10"
                "search_loop (Some get) query cap repos' (int (Suc (Suc j)))
                     (log @ requests_through query (Suc j))
                   = ((if k = Suc j then Inr repos' else outcome get query cap log k),
                      log @ requests_through query k)"
                "k = Suc j \<longleftrightarrow> cap \<le> int (length repos')"
                "\<forall>i. 1 \<le> i \<and> i < k \<longrightarrow>
                   \<not> stops_after get query cap log i \<and> \<not> fails_at get query cap log i"
                "Suc j < k \<longrightarrow> stops_after get query cap log k \<or> fails_at get query cap log k"
                by blast
              have "\<not> cap \<le> int (length repos')" using False len' total by simp
              then have later: "Suc j < k" using k(1,4) by linarith
              then have run: "?run = (outcome get query cap log k, log @ requests_through query k)"
                using rec k(3) by simp
              show ?thesis
                using run later k(2,5,6) under by (intro exI[of _ k]) auto
            qed
          qed
        qed
      qed
    qed
  qed
qed

lemma search_loop_cap:
  "search_loop (Some get) query cap repos page log = (Inr out, log') \<Longrightarrow>
     int (length out) \<le> max cap (int (length repos))"
proof (induction "nat (10 - page)" arbitrary: repos page log rule: less_induct)
  case less
  show ?case
  proof (cases "int (length repos) < cap")
    case False
    then show ?thesis using less.prems by (simp add: search_loop_done)
  next
    case True
    note step = less.prems(1)[unfolded search_loop_step[OF True]]
    show ?thesis
    proof (cases "search_page get log (page_request query page)")
      case (Inl e)
      then show ?thesis using step by simp
    next
      case (Inr items)
      show ?thesis
      proof (cases "items = []")
        case True
        then show ?thesis using step Inr by simp
      next
        case False
        show ?thesis
        proof (cases "append_items cap items repos")
          case (Inl e)
          then show ?thesis using step Inr False by simp
        next
          case app: (Inr repos')
          have len: "int (length repos') \<le> cap"
            using append_items_exact[OF app True] True by linarith
          show ?thesis
          proof (cases "page + 1 > 10")
            case True
            then have "out = repos'" using step Inr False app by simp
            then show ?thesis using len by simp
          next
            case more: False
            then have rec: "search_loop (Some get) query cap repos' (page + 1)
                              (log @ [page_request query page]) = (Inr out, log')"
              using step Inr False app by simp
            have "nat (10 - (page + 1)) < nat (10 - page)" using more by simp
            from less.hyps[OF this rec]
            show ?thesis using len by simp
          qed
        qed
      qed
    qed
  qed
qed

lemma honours_search_page:
  "honours_per_page get \<Longrightarrow> search_page get log (page_request query page) = Inr items \<Longrightarrow>
     length items \<le> 100"
  unfolding honours_per_page_def search_page_def page_request_def
  apply (auto split: reply.splits if_splits body.splits option.splits)
  apply blast
  done

lemma search_loop_ceiling:
  "honours_per_page get \<Longrightarrow>
   search_loop (Some get) query cap repos page log = (Inr out, log') \<Longrightarrow>
     int (length out) \<le> int (length repos) + 100 * max 1 (11 - page)"
proof (induction "nat (10 - page)" arbitrary: repos page log rule: less_induct)
  case less
  show ?case
  proof (cases "int (length repos) < cap")
    case False
    then show ?thesis using less.prems by (simp add: search_loop_done)
  next
    case True
    note step = less.prems(2)[unfolded search_loop_step[OF True]]
    show ?thesis
    proof (cases "search_page get log (page_request query page)")
      case (Inl e)
      then show ?thesis using step by simp
    next
      case (Inr items)
      have small: "length items \<le> 100"
        using honours_search_page[OF less.prems(1) Inr] .
      show ?thesis
      proof (cases "items = []")
        case True
        then show ?thesis using step Inr by simp
      next
        case False
        show ?thesis
        proof (cases "append_items cap items repos")
          case (Inl e)
          then show ?thesis using step Inr False by simp
        next
          case app: (Inr repos')
          have len: "length repos' \<le> length repos + length items"
            using append_items_length[OF app] by simp
          show ?thesis
          proof (cases "page + 1 > 10")
            case True
            then have "out = repos'" using step Inr False app by simp
            then show ?thesis using len small by (simp add: max_def)
          next
            case more: False
            then have rec: "search_loop (Some get) query cap repos' (page + 1)
                              (log @ [page_request query page]) = (Inr out, log')"
              using step Inr False app by simp
            have "nat (10 - (page + 1)) < nat (10 - page)" using more by simp
            from less.hyps[OF this less.prems(1) rec]
            show ?thesis using len small more by (simp add: max_def split: if_splits)
          qed
        qed
      qed
    qed
  qed
qed

lemma from_api_example [simp]: "from_api (example_item name n) = Inr (example_repo name n)"
  by (simp add: from_api_def example_item_def example_repo_def)

lemma length_requests_through [simp]: "length (requests_through query k) = k"
  by (simp add: requests_through_def)

lemma two_page_run:
  "search_repos_single (aenter (AsyncGitHubClient ''t'' 10) two_page_server) ''2025-12-10'' 5 True None []
     = (Inr [example_repo ''o/r'' 7, example_repo ''o/r'' 7],
        requests_through (build_query ''2025-12-10'' True None) 3)"
  by (simp add: search_repos_single_def aenter_def AsyncGitHubClient_def search_loop.simps
      search_page_def two_page_server_def page_request_def is_success_def requests_through_def
      build_query_def upt_rec)

lemma parse_all_replicate:
  "from_api item = Inr repo \<Longrightarrow> parse_all (replicate n item) = Inr (replicate n repo)"
  by (induction n) simp_all

text \<open>
  C6 (as amended): a paginated search of one batch always returns or raises after
  requesting the pages 1 to \<open>k\<close> in order, for a \<open>k\<close> of at most 10 (the loop is a total function
  whose page counter is bounded by 10). It issues no request exactly when the cap is not
  positive. Otherwise \<open>k\<close> is the first page at which a stopping condition holds (the page is
  empty, or the running total has reached the cap, or it is the tenth page) or at which the
  search fails (the request raises, or an item that counts towards the cap does not parse);
  no earlier page stops or fails. The search raises the exception of that failure if there
  is one, and returns the parsed items of the pages 1 to \<open>k\<close>, cut at the cap, if there is
  none. A returned list never exceeds the cap, and it never exceeds 1000 repositories
  provided that the provider returns at most \<open>per_page\<close> items on every page.
\<close>

theorem pagination_stops:
  assumes "http_client c = Some get"
  shows "\<exists>k\<le>10.
           search_repos_single c since_date max_repos exclude_forks keywords log
             = (outcome get (build_query since_date exclude_forks keywords) max_repos log k,
                log @ requests_through (build_query since_date exclude_forks keywords) k)
         \<and> (k = 0 \<longleftrightarrow> max_repos \<le> 0)
         \<and> (\<forall>i. 1 \<le> i \<and> i < k \<longrightarrow>
               \<not> stops_after get (build_query since_date exclude_forks keywords) max_repos log i
             \<and> \<not> fails_at get (build_query since_date exclude_forks keywords) max_repos log i)
         \<and> (0 < k \<longrightarrow>
               stops_after get (build_query since_date exclude_forks keywords) max_repos log k
             \<or> fails_at get (build_query since_date exclude_forks keywords) max_repos log k)
         \<and> (\<forall>repos.
               outcome get (build_query since_date exclude_forks keywords) max_repos log k
                 = Inr repos \<longrightarrow>
               int (length repos) \<le> max 0 max_repos
             \<and> (honours_per_page get \<longrightarrow> length repos \<le> 1000))"
proof -
  let ?q = "build_query since_date exclude_forks keywords"
  have parsed: "parse_all (items_through get ?q log 0) = Inr []"
    by (simp add: items_through_0)
  have "\<exists>k. 0 \<le> k \<and> k \<le> 10
          \<and> search_loop (Some get) ?q max_repos [] (int (Suc 0)) (log @ requests_through ?q 0)
              = ((if k = 0 then Inr [] else outcome get ?q max_repos log k),
                 log @ requests_through ?q k)
          \<and> (k = 0 \<longleftrightarrow> max_repos \<le> int (length ([] :: repository list)))
          \<and> (\<forall>i. 1 \<le> i \<and> i < k \<longrightarrow>
                \<not> stops_after get ?q max_repos log i \<and> \<not> fails_at get ?q max_repos log i)
          \<and> (0 < k \<longrightarrow> stops_after get ?q max_repos log k \<or> fails_at get ?q max_repos log k)"
    by (rule search_loop_outcome[OF _ parsed]) simp_all
  then obtain k where k: "k \<le> 10"
      "search_loop (Some get) ?q max_repos [] 1 log
         = (outcome get ?q max_repos log k, log @ requests_through ?q k)"
      "k = 0 \<longleftrightarrow> max_repos \<le> 0"
      "\<forall>i. 1 \<le> i \<and> i < k \<longrightarrow>
         \<not> stops_after get ?q max_repos log i \<and> \<not> fails_at get ?q max_repos log i"
      "0 < k \<longrightarrow> stops_after get ?q max_repos log k \<or> fails_at get ?q max_repos log k"
    by (auto simp: requests_through_0 outcome_def)
  have run: "search_repos_single c since_date max_repos exclude_forks keywords log
               = (outcome get ?q max_repos log k, log @ requests_through ?q k)"
    using k(2) assms by (simp add: search_repos_single_def)
  have cap: "int (length repos) \<le> max 0 max_repos"
    if "outcome get ?q max_repos log k = Inr repos" for repos
    using search_loop_cap[of get ?q max_repos "[]" 1 log repos "log @ requests_through ?q k"]
      k(2) that by (simp add: max.commute)
  have ceil: "length repos \<le> 1000"
    if "outcome get ?q max_repos log k = Inr repos" "honours_per_page get" for repos
    using search_loop_ceiling[of get ?q max_repos "[]" 1 log repos "log @ requests_through ?q k"]
      k(2) that by simp
  show ?thesis
    using k(1) run k(3,4,5) cap ceil by (intro exI[of _ k]) blast
qed

theorem pagination_stops_witness:
  "honours_per_page two_page_server
   \<and> search_repos_single (aenter (AsyncGitHubClient ''t'' 10) two_page_server)
        ''2025-12-10'' 5 True None []
       = (outcome two_page_server (build_query ''2025-12-10'' True None) 5 [] 3,
          [] @ requests_through (build_query ''2025-12-10'' True None) 3)
   \<and> outcome two_page_server (build_query ''2025-12-10'' True None) 5 [] 3
       = Inr [example_repo ''o/r'' 7, example_repo ''o/r'' 7]
   \<and> \<not> stops_after two_page_server (build_query ''2025-12-10'' True None) 5 [] 1
   \<and> \<not> fails_at two_page_server (build_query ''2025-12-10'' True None) 5 [] 1
   \<and> \<not> stops_after two_page_server (build_query ''2025-12-10'' True None) 5 [] 2
   \<and> \<not> fails_at two_page_server (build_query ''2025-12-10'' True None) 5 [] 2
   \<and> stops_after two_page_server (build_query ''2025-12-10'' True None) 5 [] 3
   \<and> length [example_repo ''o/r'' 7, example_repo ''o/r'' 7] \<le> 1000"
proof -
  let ?c = "aenter (AsyncGitHubClient ''t'' 10) two_page_server"
  let ?q = "build_query ''2025-12-10'' True None"
  have hc: "http_client ?c = Some two_page_server"
    by (simp add: aenter_def AsyncGitHubClient_def)
  have hon: "honours_per_page two_page_server"
    by (simp add: honours_per_page_def two_page_server_def)
  from pagination_stops[OF hc, of "''2025-12-10''" 5 True None "[]"]
  obtain k where k:
    "search_repos_single ?c ''2025-12-10'' 5 True None []
       = (outcome two_page_server ?q 5 [] k, [] @ requests_through ?q k)"
    "\<forall>i. 1 \<le> i \<and> i < k \<longrightarrow>
       \<not> stops_after two_page_server ?q 5 [] i \<and> \<not> fails_at two_page_server ?q 5 [] i"
    "\<forall>repos. outcome two_page_server ?q 5 [] k = Inr repos \<longrightarrow>
       (honours_per_page two_page_server \<longrightarrow> length repos \<le> 1000)"
    by blast
  have "length (requests_through ?q 3) = length (requests_through ?q k)"
    using k(1) two_page_run by simp
  then have k3: "k = 3" by (simp only: length_requests_through)
  have out: "outcome two_page_server ?q 5 [] 3
               = Inr [example_repo ''o/r'' 7, example_repo ''o/r'' 7]"
    using k(1) two_page_run k3 by simp
  have stop: "stops_after two_page_server ?q 5 [] 3"
    by (simp add: stops_after_def page_items_def search_page_def two_page_server_def
        page_request_def is_success_def)
  show ?thesis
    using k(1,2,3) k3 out hon stop by simp
qed

text \<open>
  Without that proviso the ceiling of 1000 does not hold: the loop bounds the number of
  pages, not the size of a page. From a provider that answers the first page with 1001
  items and the second with none, a search with cap 2000 returns 1001 repositories.
\<close>

theorem pagination_over_ceiling:
  "search_repos_single (aenter (AsyncGitHubClient ''t'' 10) oversized_page_server)
       ''2025-12-10'' 2000 True None []
     = (Inr (replicate 1001 (example_repo ''o/r'' 7)),
        requests_through (build_query ''2025-12-10'' True None) 2)
   \<and> 1000 < length (replicate 1001 (example_repo ''o/r'' 7))"
proof -
  let ?q = "build_query ''2025-12-10'' True None"
  let ?repos = "replicate 1001 (example_repo ''o/r'' 7)"
  have page1: "search_page oversized_page_server [] (page_request ?q 1)
                 = Inr (replicate 1001 (example_item ''o/r'' 7))"
    by (simp add: search_page_def oversized_page_server_def page_request_def is_success_def)
  have page2: "search_page oversized_page_server [page_request ?q 1] (page_request ?q 2)
                 = Inr []"
    by (simp add: search_page_def oversized_page_server_def page_request_def is_success_def)
  have app: "append_items 2000 (replicate 1001 (example_item ''o/r'' 7)) [] = Inr ?repos"
    by (subst append_items_parse) (simp_all add: parse_all_replicate)
  have nonempty: "replicate 1001 (example_item ''o/r'' 7) \<noteq> []"
    by (simp add: replicate_empty)
  have second: "search_loop (Some oversized_page_server) ?q 2000 ?repos 2 [page_request ?q 1]
                  = (Inr ?repos, [page_request ?q 1] @ [page_request ?q 2])"
    by (subst search_loop_step) (simp_all add: page2)
  have first: "search_loop (Some oversized_page_server) ?q 2000 [] 1 []
                 = (Inr ?repos, [page_request ?q 1, page_request ?q 2])"
    by (subst search_loop_step) (simp_all add: page1 app nonempty second)
  have reqs: "requests_through ?q 2 = [page_request ?q 1, page_request ?q 2]"
    by (simp add: requests_through_def upt_rec)
  show ?thesis
    using first reqs
    by (simp add: search_repos_single_def aenter_def AsyncGitHubClient_def)
qed

subsection \<open>Batching and merging\<close>

lemma chunks_Nil: "chunks n [] = []"
  by (subst chunks.simps) simp

lemma chunks_step: "0 < n \<Longrightarrow> xs \<noteq> [] \<Longrightarrow> chunks n xs = take n xs # chunks n (drop n xs)"
  by (subst chunks.simps) simp

lemma batches_from:
  "0 < step \<Longrightarrow>
   map (\<lambda>i. slice xs i (i + step)) (range_step start (length xs) step) = chunks step (drop start xs)"
proof (induction start "length xs" step rule: range_step.induct)
  case (1 start step)
  show ?case
  proof (cases "start < length xs")
    case True
    then have "drop start xs \<noteq> []" by simp
    then show ?thesis
      using 1 True
      by (subst range_step.simps, subst chunks.simps)
         (simp add: slice_def add.commute)
  next
    case False
    then show ?thesis
      by (subst range_step.simps, subst chunks.simps) simp
  qed
qed

lemma keyword_batches_chunks: "keyword_batches ks = chunks 6 ks"
  using batches_from[of 6 ks 0] by (simp add: keyword_batches_def MAX_KEYWORDS_PER_QUERY_def)

lemma concat_chunks: "0 < n \<Longrightarrow> concat (chunks n xs) = xs"
  by (induction n xs rule: chunks.induct) (subst chunks.simps, simp)

lemma chunks_sizes: "b \<in> set (chunks n xs) \<Longrightarrow> 0 < length b \<and> length b \<le> n"
proof (induction n xs rule: chunks.induct)
  case (1 n xs)
  then show ?case
    by (subst (asm) (2) chunks.simps) (auto split: if_splits)
qed

lemma length_chunks_6: "length (chunks 6 xs) = (length xs + 5) div 6"
proof (induction "6::nat" xs rule: chunks.induct)
  case (1 xs)
  show ?case
  proof (cases "xs = []")
    case True
    then show ?thesis by (simp add: chunks_Nil)
  next
    case False
    have unfold: "chunks 6 xs = take 6 xs # chunks 6 (drop 6 xs)"
      using False by (simp add: chunks_step)
    have ih: "length (chunks 6 (drop 6 xs)) = (length xs - 6 + 5) div 6"
      using 1 False by simp
    show ?thesis
    proof (cases "length xs < 6")
      case True
      then have "(length xs - 6 + 5) div 6 = 0" by simp
      moreover have "(length xs + 5) div 6 = 1"
      proof -
        have "Suc 0 \<le> length xs" using False by (cases xs) simp_all
        then have m: "length xs + 5 = (length xs - 1) + 6" "length xs - 1 < 6"
          using True by linarith+
        have "((length xs - 1) + 6) div 6 = (length xs - 1) div 6 + 1"
          by (rule div_add_self2) simp
        then show ?thesis using m by simp
      qed
      ultimately show ?thesis using unfold ih by simp
    next
      case False
      then obtain m where m: "length xs = m + 6"
        by (metis le_add_diff_inverse2 not_less)
      have "(m + 5 + 6) div 6 = (m + 5) div 6 + 1"
        by (rule div_add_self2) simp
      then show ?thesis using unfold ih m by (simp add: add.assoc)
    qed
  qed
qed

lemma chunks_full:
  "b \<in> set (butlast (chunks n xs)) \<Longrightarrow> length b = n"
proof (induction n xs rule: chunks.induct)
  case (1 n xs)
  show ?case
  proof (cases "n = 0 \<or> xs = []")
    case True
    then have "chunks n xs = []" by (subst chunks.simps) simp
    then show ?thesis using "1.prems" by simp
  next
    case False
    then have unfold: "chunks n xs = take n xs # chunks n (drop n xs)"
      by (simp add: chunks_step)
    show ?thesis
    proof (cases "chunks n (drop n xs) = []")
      case True
      then show ?thesis using "1.prems" unfold by simp
    next
      case rest: False
      then have "drop n xs \<noteq> []" by (auto simp: chunks_Nil)
      then have "length (take n xs) = n" by simp
      moreover have "b = take n xs \<or> b \<in> set (butlast (chunks n (drop n xs)))"
        using "1.prems" unfold rest by simp
      ultimately show ?thesis using "1.IH" False by auto
    qed
  qed
qed

lemma names_first_wins: "full_name ` set (first_wins xs) = full_name ` set xs"
  by (induction xs rule: first_wins.induct) auto

lemma first_wins_snoc:
  "first_wins (xs @ [r]) =
     (if full_name r \<in> full_name ` set xs then first_wins xs else first_wins xs @ [r])"
proof (induction xs rule: first_wins.induct)
  case 1
  show ?case by simp
next
  case (2 x xs)
  show ?case
  proof (cases "full_name r = full_name x")
    case True
    then show ?thesis by simp
  next
    case False
    have "full_name r \<in> full_name ` set (filter (\<lambda>y. full_name y \<noteq> full_name x) xs)
            \<longleftrightarrow> full_name r \<in> full_name ` set xs"
      using False by auto
    then show ?thesis using 2 False by simp
  qed
qed

lemma distinct_first_wins: "distinct (map full_name (first_wins xs))"
proof (induction xs rule: first_wins.induct)
  case 1
  show ?case by simp
next
  case (2 r rs)
  have "full_name r \<notin> full_name ` set (first_wins (filter (\<lambda>x. full_name x \<noteq> full_name r) rs))"
    by (auto simp: names_first_wins)
  then show ?case using 2 by simp
qed

lemma find_filter:
  "(\<And>x. P x \<Longrightarrow> Q x) \<Longrightarrow> find P (filter Q xs) = find P xs"
  by (induction xs) auto

lemma first_wins_find:
  "r \<in> set (first_wins xs) \<Longrightarrow> find (\<lambda>x. full_name x = full_name r) xs = Some r"
proof (induction xs rule: first_wins.induct)
  case 1
  then show ?case by simp
next
  case (2 a rs)
  show ?case
  proof (cases "r = a")
    case True
    then show ?thesis by simp
  next
    case False
    then have mem: "r \<in> set (first_wins (filter (\<lambda>x. full_name x \<noteq> full_name a) rs))"
      using "2.prems" by simp
    then have "full_name r \<in> full_name ` set (filter (\<lambda>x. full_name x \<noteq> full_name a) rs)"
      using names_first_wins by blast
    then have other: "full_name a \<noteq> full_name r" by auto
    have "find (\<lambda>x. full_name x = full_name r) (filter (\<lambda>x. full_name x \<noteq> full_name a) rs)
            = find (\<lambda>x. full_name x = full_name r) rs"
      using other by (intro find_filter) auto
    then show ?thesis using "2.IH"[OF mem] other by simp
  qed
qed

lemma merge_batch_step:
  "merge_batch (r # rs) (map (\<lambda>r. (full_name r, r)) (first_wins xs))
     = merge_batch rs (map (\<lambda>r. (full_name r, r)) (first_wins (xs @ [r])))"
proof -
  have keys: "fst ` set (map (\<lambda>r. (full_name r, r)) (first_wins xs)) = full_name ` set xs"
    using names_first_wins[of xs] by (simp add: image_image)
  show ?thesis
  proof (cases "full_name r \<in> full_name ` set xs")
    case True
    then show ?thesis
      unfolding merge_batch.simps keys first_wins_snoc by simp
  next
    case False
    then show ?thesis
      unfolding merge_batch.simps keys first_wins_snoc by simp
  qed
qed

lemma merge_batch_first_wins:
  "merge_batch rs (map (\<lambda>r. (full_name r, r)) (first_wins xs))
     = map (\<lambda>r. (full_name r, r)) (first_wins (xs @ rs))"
proof (induction rs arbitrary: xs)
  case Nil
  show ?case by simp
next
  case (Cons r rs)
  have "merge_batch (r # rs) (map (\<lambda>r. (full_name r, r)) (first_wins xs))
          = map (\<lambda>r. (full_name r, r)) (first_wins ((xs @ [r]) @ rs))"
    unfolding merge_batch_step by (rule Cons)
  then show ?case by simp
qed

lemma search_batches_run:
  "search_batches c since_date max_repos exclude_forks batches
       (map (\<lambda>r. (full_name r, r)) (first_wins xs)) log
     = (case run_batches c since_date max_repos exclude_forks batches log of
          (Inl e, log') \<Rightarrow> (Inl e, log')
        | (Inr results, log') \<Rightarrow>
            (Inr (map (\<lambda>r. (full_name r, r)) (first_wins (xs @ concat results))), log'))"
proof (induction batches arbitrary: xs log)
  case Nil
  show ?case by simp
next
  case (Cons batch batches)
  show ?case
  proof (cases "search_repos_single c since_date max_repos exclude_forks (Some batch) log")
    case (Pair res log')
    show ?thesis
    proof (cases res)
      case (Inl e)
      then show ?thesis using Pair by simp
    next
      case (Inr batch_repos)
      obtain res2 log2 where rest:
        "run_batches c since_date max_repos exclude_forks batches log' = (res2, log2)"
        by (cases "run_batches c since_date max_repos exclude_forks batches log'")
      show ?thesis
        using Pair Inr rest Cons[of "xs @ batch_repos" log']
        by (cases res2) (simp_all add: merge_batch_first_wins)
    qed
  qed
qed

lemma run_batches_no_cap:
  "max_repos \<le> 0 \<Longrightarrow>
   run_batches c since_date max_repos exclude_forks batches log = (Inr results, log') \<Longrightarrow>
     concat results = []"
proof (induction batches arbitrary: log results)
  case Nil
  then show ?case by simp
next
  case (Cons batch batches)
  have single: "search_repos_single c since_date max_repos exclude_forks (Some batch) log
                  = (Inr [], log)"
    using Cons.prems(1) by (simp add: search_repos_single_def search_loop_done)
  obtain res2 log2 where rest:
    "run_batches c since_date max_repos exclude_forks batches log = (res2, log2)"
    by (cases "run_batches c since_date max_repos exclude_forks batches log")
  show ?case
  proof (cases res2)
    case (Inl e)
    then show ?thesis using Cons.prems(2) single rest by simp
  next
    case (Inr rs)
    then have "results = [] # rs" "log2 = log'"
      using Cons.prems(2) single rest by simp_all
    moreover have "concat rs = []"
      using Cons.IH[OF Cons.prems(1)] rest Inr \<open>log2 = log'\<close> by simp
    ultimately show ?thesis by simp
  qed
qed

lemma stars_descending_sorted: "stars_descending (sorted_by_stars_desc xs)"
proof -
  have "sorted (map (\<lambda>r. - stars r) (sort_key (\<lambda>r. - stars r) xs))"
    by (rule sorted_sort_key)
  then show ?thesis
    by (simp add: stars_descending_def sorted_by_stars_desc_def sorted_map)
qed

lemma sorted_by_stars_desc_stable:
  "filter (\<lambda>r. stars r = n) (sorted_by_stars_desc xs) = filter (\<lambda>r. stars r = n) xs"
  using sort_key_stable[of "\<lambda>r. - stars r" "- n" xs]
  by (simp add: sorted_by_stars_desc_def)

lemma two_batch_run:
  "run_batches (aenter (AsyncGitHubClient ''t'' 10) two_batch_server) ''2025-12-10'' 2 True
       [[''k1'', ''k2'', ''k3'', ''k4'', ''k5'', ''k6''], [''k7'']] []
     = (Inr [[example_repo ''o/a'' 5, example_repo ''o/b'' 9],
             [example_repo ''o/b'' 1, example_repo ''o/c'' 7]],
        [page_request (build_query ''2025-12-10'' True
                         (Some [''k1'', ''k2'', ''k3'', ''k4'', ''k5'', ''k6''])) 1,
         page_request (build_query ''2025-12-10'' True (Some [''k7''])) 1])"
  by (simp add: search_repos_single_def aenter_def AsyncGitHubClient_def search_loop.simps
      search_page_def two_batch_server_def page_request_def is_success_def)

lemma seven_batches:
  "chunks 6 seven_keywords = [[''k1'', ''k2'', ''k3'', ''k4'', ''k5'', ''k6''], [''k7'']]"
  by (simp add: seven_keywords_def chunks.simps)

text \<open>
  C2: for a keyword list \<open>ks\<close> of more than 6 entries, on an initialised client, the batches
  are the consecutive chunks of 6 keywords: there are \<open>\<lceil>length ks / 6\<rceil>\<close> of them, their
  concatenation is \<open>ks\<close>, every batch but the last has exactly 6 keywords and the last has
  between 1 and 6. \<open>search_repos\<close> runs one paginated search per batch in that order. If
  all of them return, it returns the concatenation of their results, deduplicated by name
  with the earliest copy kept, sorted by star count descending and truncated to the cap
  (to nothing when the cap is not positive); if one of them raises, it raises that
  exception and runs no later batch. The deduplicated list has distinct names, has
  exactly the names of the original, and holds for each name the first repository of that
  name. The sorted list is a permutation in which star counts never increase and
  repositories of equal star count keep their order.
\<close>
theorem batched_search:
  assumes "http_client c = Some get"
    and "6 < length ks"
  shows "keyword_batches ks = chunks 6 ks
       \<and> length (keyword_batches ks) = (length ks + 5) div 6
       \<and> concat (keyword_batches ks) = ks
       \<and> (\<forall>b\<in>set (butlast (keyword_batches ks)). length b = 6)
       \<and> 0 < length (last (keyword_batches ks)) \<and> length (last (keyword_batches ks)) \<le> 6
       \<and> search_repos c since_date max_repos exclude_forks (Some ks) log
           = (case run_batches c since_date max_repos exclude_forks (keyword_batches ks) log of
                (Inl e, log') \<Rightarrow> (Inl e, log')
              | (Inr results, log') \<Rightarrow>
                  (Inr (take (nat max_repos)
                          (sorted_by_stars_desc (first_wins (concat results)))), log'))
       \<and> distinct (map full_name (first_wins repos))
       \<and> full_name ` set (first_wins repos) = full_name ` set repos
       \<and> (\<forall>r\<in>set (first_wins repos). find (\<lambda>x. full_name x = full_name r) repos = Some r)
       \<and> stars_descending (sorted_by_stars_desc repos)
       \<and> mset (sorted_by_stars_desc repos) = mset repos
       \<and> filter (\<lambda>r. stars r = n) (sorted_by_stars_desc repos) = filter (\<lambda>r. stars r = n) repos"
proof -
  have nonempty: "chunks 6 ks \<noteq> []"
    using assms(2) by (subst chunks.simps) auto
  have last_size: "0 < length (last (chunks 6 ks)) \<and> length (last (chunks 6 ks)) \<le> 6"
    using chunks_sizes[of "last (chunks 6 ks)" 6 ks] nonempty by simp
  have run: "search_repos c since_date max_repos exclude_forks (Some ks) log
           = (case run_batches c since_date max_repos exclude_forks (keyword_batches ks) log of
                (Inl e, log') \<Rightarrow> (Inl e, log')
              | (Inr results, log') \<Rightarrow>
                  (Inr (take (nat max_repos)
                          (sorted_by_stars_desc (first_wins (concat results)))), log'))"
  proof (cases "run_batches c since_date max_repos exclude_forks (keyword_batches ks) log")
    case (Pair res log')
    have batches: "search_batches c since_date max_repos exclude_forks (keyword_batches ks) [] log
        = (case res of
             Inl e \<Rightarrow> (Inl e, log')
           | Inr results \<Rightarrow>
               (Inr (map (\<lambda>r. (full_name r, r)) (first_wins (concat results))), log'))"
      using search_batches_run[of c since_date max_repos exclude_forks "keyword_batches ks" "[]" log]
        Pair by (cases res) simp_all
    have ks: "ks \<noteq> [] \<and> MAX_KEYWORDS_PER_QUERY < length ks"
      using assms(2) by (auto simp: MAX_KEYWORDS_PER_QUERY_def)
    show ?thesis
    proof (cases res)
      case (Inl e)
      then show ?thesis
        using Pair batches ks assms(1) by (simp add: search_repos_def)
    next
      case (Inr results)
      have cut: "slice_to (sorted_by_stars_desc (first_wins (concat results))) max_repos
                   = take (nat max_repos) (sorted_by_stars_desc (first_wins (concat results)))"
      proof (cases "0 \<le> max_repos")
        case True
        then show ?thesis by (simp add: slice_to_def)
      next
        case False
        then have "concat results = []"
          using run_batches_no_cap[of max_repos c since_date exclude_forks "keyword_batches ks"
              log results log'] Pair Inr by simp
        then have "first_wins (concat results) = []"
          by (simp only: first_wins.simps)
        then show ?thesis by (simp only: slice_to_def sorted_by_stars_desc_def) simp
      qed
      have unzip: "map snd (map (\<lambda>r. (full_name r, r)) (first_wins (concat results)))
                      = first_wins (concat results)"
        by (simp add: comp_def)
      show ?thesis
        using Pair batches ks assms(1) Inr cut unzip by (simp add: search_repos_def)
    qed
  qed
  have perm: "mset (sorted_by_stars_desc repos) = mset repos"
    by (simp add: sorted_by_stars_desc_def)
  show ?thesis
    using run last_size chunks_full[of _ 6 ks] first_wins_find[of _ repos]
    by (simp add: keyword_batches_chunks length_chunks_6 concat_chunks distinct_first_wins
        names_first_wins stars_descending_sorted sorted_by_stars_desc_stable perm)
qed

theorem batched_search_witness:
  "6 < length seven_keywords
   \<and> keyword_batches seven_keywords
       = [[''k1'', ''k2'', ''k3'', ''k4'', ''k5'', ''k6''], [''k7'']]
   \<and> search_repos (aenter (AsyncGitHubClient ''t'' 10) two_batch_server) ''2025-12-10'' 2 True
        (Some seven_keywords) []
       = (Inr [example_repo ''o/b'' 9, example_repo ''o/c'' 7],
          [page_request (build_query ''2025-12-10'' True
                           (Some [''k1'', ''k2'', ''k3'', ''k4'', ''k5'', ''k6''])) 1,
           page_request (build_query ''2025-12-10'' True (Some [''k7''])) 1])"
proof -
  let ?c = "aenter (AsyncGitHubClient ''t'' 10) two_batch_server"
  have hc: "http_client ?c = Some two_batch_server"
    by (simp add: aenter_def AsyncGitHubClient_def)
  have len: "6 < length seven_keywords"
    by (simp add: seven_keywords_def)
  have merged: "take (nat 2) (sorted_by_stars_desc (first_wins (concat
                   [[example_repo ''o/a'' 5, example_repo ''o/b'' 9],
                    [example_repo ''o/b'' 1, example_repo ''o/c'' 7]])))
                 = [example_repo ''o/b'' 9, example_repo ''o/c'' 7]"
    by (simp add: sorted_by_stars_desc_def example_repo_def)
  from batched_search[OF hc len, of "''2025-12-10''" 2 True "[]"]
  have batches: "keyword_batches seven_keywords = chunks 6 seven_keywords"
    and run: "search_repos ?c ''2025-12-10'' 2 True (Some seven_keywords) []
       = (case run_batches ?c ''2025-12-10'' 2 True (keyword_batches seven_keywords) [] of
            (Inl e, log') \<Rightarrow> (Inl e, log')
          | (Inr results, log') \<Rightarrow>
              (Inr (take (nat 2) (sorted_by_stars_desc (first_wins (concat results)))), log'))"
    by blast+
  have kb: "keyword_batches seven_keywords
              = [[''k1'', ''k2'', ''k3'', ''k4'', ''k5'', ''k6''], [''k7'']]"
    using batches by (simp only: seven_batches)
  have "search_repos ?c ''2025-12-10'' 2 True (Some seven_keywords) []
          = (Inr (take (nat 2) (sorted_by_stars_desc (first_wins (concat
                   [[example_repo ''o/a'' 5, example_repo ''o/b'' 9],
                    [example_repo ''o/b'' 1, example_repo ''o/c'' 7]])))),
             [page_request (build_query ''2025-12-10'' True
                              (Some [''k1'', ''k2'', ''k3'', ''k4'', ''k5'', ''k6''])) 1,
              page_request (build_query ''2025-12-10'' True (Some [''k7''])) 1])"
    using run unfolding kb two_batch_run by (simp only: prod.case sum.case)
  then show ?thesis
    using len kb by (simp only: merged simp_thms)
qed

subsection \<open>The skip-set\<close>

text \<open>
  C1: \<open>search_repos\<close> has no skip-set parameter and its body filters nothing. The call that
  \<open>run_pipeline_async\<close> makes, with the keyword \<open>skip_repos\<close>, raises \<open>TypeError\<close> before any
  request is issued. The same call without that keyword, against a provider whose first
  page holds \<open>o/a\<close> (5 stars) and \<open>o/b\<close> (9 stars) and with cap 2, returns both: a
  repository \<open>o/a\<close> that the caller has already seen is returned and uses cap budget.
\<close>

theorem search_repos_skip_set:
  "search_repos_call (aenter (AsyncGitHubClient ''t'' 10) two_batch_server)
       [Kw_since_date ''2025-12-10'', Kw_max_repos 2, Kw_exclude_forks True, Kw_keywords None,
        Kw_unexpected ''skip_repos''] []
     = (Inl TypeError, [])
   \<and> search_repos_call (aenter (AsyncGitHubClient ''t'' 10) two_batch_server)
       [Kw_since_date ''2025-12-10'', Kw_max_repos 2, Kw_exclude_forks True, Kw_keywords None] []
     = (Inr [example_repo ''o/a'' 5, example_repo ''o/b'' 9],
        [page_request (build_query ''2025-12-10'' True None) 1])
   \<and> ''o/a'' \<in> set (map full_name [example_repo ''o/a'' 5, example_repo ''o/b'' 9])"
  by (simp add: search_repos_call_def search_repos_def search_repos_single_def aenter_def
      AsyncGitHubClient_def search_loop.simps search_page_def two_batch_server_def
      page_request_def is_success_def example_repo_def)

subsection \<open>Pruning the cache\<close>

lemma prune_items_filter:
  "map (\<lambda>(name, seen_date). fromisoformat seen_date) items = map Inr days \<Longrightarrow>
     prune_items fromisoformat cutoff items
       = Inr (map fst (filter (\<lambda>(item, d). cutoff \<le> d) (zip items days)))"
proof (induction items arbitrary: days)
  case Nil
  then show ?case by simp
next
  case (Cons item items)
  obtain name seen_date where item: "item = (name, seen_date)" by (cases item)
  from Cons.prems obtain d ds where days: "days = d # ds" by (cases days) auto
  have head: "fromisoformat seen_date = Inr d"
    and tail: "map (\<lambda>(name, seen_date). fromisoformat seen_date) items = map Inr ds"
    using Cons.prems item days by simp_all
  show ?case
    using Cons.IH[OF tail] head item days by simp
qed

lemma kept_member:
  assumes "distinct (map fst items)" and "length days = length items" and "i < length items"
  shows "items ! i \<in> set (map fst (filter (\<lambda>(item, d). cutoff \<le> d) (zip items days)))
           \<longleftrightarrow> cutoff \<le> days ! i"
proof
  assume "items ! i \<in> set (map fst (filter (\<lambda>(item, d). cutoff \<le> d) (zip items days)))"
  then obtain d where d: "(items ! i, d) \<in> set (zip items days)" "cutoff \<le> d"
    by auto
  then obtain j where j: "j < length items" "items ! j = items ! i" "days ! j = d"
    using assms(2) by (auto simp: set_zip)
  have "distinct items" using assms(1) by (rule distinct_map[THEN iffD1, THEN conjunct1])
  then have "j = i" using j(1,2) assms(3) by (simp add: nth_eq_iff_index_eq)
  then show "cutoff \<le> days ! i" using j(3) d(2) by simp
next
  assume "cutoff \<le> days ! i"
  moreover have "(items ! i, days ! i) \<in> set (zip items days)"
    using assms(2,3) by (auto simp: set_zip)
  ultimately show "items ! i \<in> set (map fst (filter (\<lambda>(item, d). cutoff \<le> d) (zip items days)))"
    by force
qed

text \<open>
  C7: let the cache hold ISO date strings, the \<open>i\<close>-th of which denotes the day \<open>days ! i\<close>,
  under distinct names, and let the cutoff \<open>today - cache_days\<close> be a date of the calendar
  (years 1 to 9999, with a window of at most 999999999 days). Then \<open>prune\<close> returns, and it
  keeps, in their order, exactly the entries whose date is not strictly earlier than the
  cutoff: an entry is removed if and only if its date is strictly earlier than the cutoff,
  an entry dated exactly at the cutoff is kept, and no kept entry is older than
  \<open>cache_days\<close> days.
\<close>
theorem prune_boundary:
  assumes "map (\<lambda>(name, seen_date). fromisoformat seen_date) (data c) = map Inr days"
    and "distinct (map fst (data c))"
    and "\<bar>cache_days c\<bar> \<le> 999999999"
    and "MINORDINAL \<le> today - cache_days c" and "today - cache_days c \<le> MAXORDINAL"
  shows "\<exists>kept.
           prune fromisoformat today c = Inr (c \<lparr> data := kept \<rparr>)
         \<and> kept = map fst (filter (\<lambda>(item, d). \<not> d < today - cache_days c) (zip (data c) days))
         \<and> (\<forall>i<length (data c).
               (data c ! i \<notin> set kept \<longleftrightarrow> days ! i < today - cache_days c)
             \<and> (days ! i = today - cache_days c \<longrightarrow> data c ! i \<in> set kept)
             \<and> (data c ! i \<in> set kept \<longrightarrow> today - days ! i \<le> cache_days c))"
proof -
  let ?cutoff = "today - cache_days c"
  let ?kept = "map fst (filter (\<lambda>(item, d). ?cutoff \<le> d) (zip (data c) days))"
  have len: "length days = length (data c)"
    using assms(1) by (metis length_map)
  have run: "prune fromisoformat today c = Inr (c \<lparr> data := ?kept \<rparr>)"
    using assms(3,4,5) prune_items_filter[OF assms(1), of ?cutoff]
    by (simp add: prune_def timedelta_def date_sub_def)
  have same: "(\<lambda>(item, d). \<not> d < ?cutoff) = (\<lambda>(item :: string \<times> string, d). ?cutoff \<le> d)"
    by (auto simp: fun_eq_iff)
  have member: "data c ! i \<in> set ?kept \<longleftrightarrow> ?cutoff \<le> days ! i" if "i < length (data c)" for i
    using kept_member[OF assms(2) len that] .
  show ?thesis
  proof (intro exI[of _ ?kept] conjI allI impI)
    show "prune fromisoformat today c = Inr (c \<lparr> data := ?kept \<rparr>)" by (rule run)
    show "?kept = map fst (filter (\<lambda>(item, d). \<not> d < ?cutoff) (zip (data c) days))"
      by (simp only: same)
  next
    fix i assume "i < length (data c)"
    then show "data c ! i \<notin> set ?kept \<longleftrightarrow> days ! i < ?cutoff"
      using member by auto
  next
    fix i assume "i < length (data c)" "days ! i = ?cutoff"
    then show "data c ! i \<in> set ?kept" using member by simp
  next
    fix i assume "i < length (data c)" "data c ! i \<in> set ?kept"
    then show "today - days ! i \<le> cache_days c" using member by auto
  qed
qed

theorem prune_boundary_witness:
  "map (\<lambda>(name, seen_date). example_fromisoformat seen_date) (data (example_cache 30))
     = map Inr [739884, 739894, 739919]
   \<and> distinct (map fst (data (example_cache 30)))
   \<and> \<bar>cache_days (example_cache 30)\<bar> \<le> 999999999
   \<and> MINORDINAL \<le> 739924 - cache_days (example_cache 30)
   \<and> 739924 - cache_days (example_cache 30) \<le> MAXORDINAL
   \<and> prune example_fromisoformat 739924 (example_cache 30)
       = Inr ((example_cache 30)
               \<lparr> data := [(''edge/repo'', ''2026-10-05''), (''recent/repo'', ''2026-10-30'')] \<rparr>)"
proof -
  have h1: "map (\<lambda>(name, seen_date). example_fromisoformat seen_date) (data (example_cache 30))
              = map Inr [739884, 739894, 739919]"
    by (simp add: example_cache_def example_fromisoformat_def)
  have h2: "distinct (map fst (data (example_cache 30)))"
    by (simp add: example_cache_def)
  have h3: "\<bar>cache_days (example_cache 30)\<bar> \<le> 999999999"
    by (simp add: example_cache_def)
  have h4: "MINORDINAL \<le> 739924 - cache_days (example_cache 30)"
    by (simp add: example_cache_def MINORDINAL_def)
  have h5: "739924 - cache_days (example_cache 30) \<le> MAXORDINAL"
    by (simp add: example_cache_def MAXORDINAL_def)
  from prune_boundary[OF h1 h2 h3 h4 h5]
  have "prune example_fromisoformat 739924 (example_cache 30)
          = Inr ((example_cache 30)
                  \<lparr> data := map fst (filter (\<lambda>(item, d). \<not> d < 739924 - cache_days (example_cache 30))
                                          (zip (data (example_cache 30)) [739884, 739894, 739919])) \<rparr>)"
    by blast
  moreover have "map fst (filter (\<lambda>(item, d). \<not> d < 739924 - cache_days (example_cache 30))
                            (zip (data (example_cache 30)) [739884, 739894, 739919]))
                   = [(''edge/repo'', ''2026-10-05''), (''recent/repo'', ''2026-10-30'')]"
    by (simp add: example_cache_def)
  ultimately show ?thesis
    using h1 h2 h3 h4 h5 by simp
qed

subsection \<open>Loading the cache\<close>



subsection \<open>Saving the cache\<close>

lemma run_writes:
  "run_operations (map (\<lambda>ch. Write_Text path [ch]) str) (fs(path \<mapsto> old))
     = fs(path \<mapsto> old @ str)"
proof (induction str arbitrary: old)
  case Nil
  show ?case by (simp add: run_operations_def)
next
  case (Cons ch str)
  have "run_operations (map (\<lambda>ch. Write_Text path [ch]) (ch # str)) (fs(path \<mapsto> old))
          = run_operations (map (\<lambda>ch. Write_Text path [ch]) str) (fs(path \<mapsto> old @ [ch]))"
    by (simp add: run_operations_def)
  also have "\<dots> = fs(path \<mapsto> (old @ [ch]) @ str)"
    by (rule Cons)
  finally show ?case by (simp only: append_assoc append_Cons append_Nil)
qed

lemma run_write_text_prefix:
  "run_operations (take (Suc n) (write_text_operations path text)) fs
     = fs(path \<mapsto> take n text)"
proof -
  have "run_operations (take (Suc n) (write_text_operations path text)) fs
          = run_operations (map (\<lambda>ch. Write_Text path [ch]) (take n text)) (fs(path \<mapsto> []))"
    by (simp add: write_text_operations_def run_operations_def take_map)
  then show ?thesis by (simp add: run_writes)
qed

lemma write_text_result: "write_text path text fs = fs(path \<mapsto> text)"
proof -
  have "write_text_operations path text
          = take (Suc (length text)) (write_text_operations path text)"
    by (simp add: write_text_operations_def)
  then have "write_text path text fs
               = run_operations (take (Suc (length text)) (write_text_operations path text)) fs"
    by (simp add: write_text_def)
  then show ?thesis by (simp add: run_write_text_prefix)
qed

text \<open>
  C4 (as amended): \<open>save\<close> writes the serialisation of the whole current mapping over the
  content of the cache file, and changes no other file. It writes in place: once the file
  has been opened, a crash leaves in it the part of the new text written so far (none of
  it right after the opening), and nothing of the previous content.
\<close>
theorem save_overwrites:
  "save dumps c fs = fs(cache_path c \<mapsto> dumps (data c))
   \<and> save_interrupted dumps c fs 0 = fs
   \<and> save_interrupted dumps c fs (Suc n) = fs(cache_path c \<mapsto> take n (dumps (data c)))"
proof -
  have "save_interrupted dumps c fs 0 = fs"
    by (simp add: save_interrupted_def run_operations_def)
  then show ?thesis
    by (simp add: save_def write_text_result)
       (simp add: save_interrupted_def run_write_text_prefix)
qed

text \<open>
  The write is not atomic. With a persisted cache of one entry, a crash of \<open>save\<close> after the
  file has been opened and before anything is written leaves the file empty: the
  previous content is gone, and the next start loads an empty store.
\<close>
theorem save_not_atomic:
  "example_files ''seen_repos.json'' = Some ''{\"o/r\": \"2026-10-30\"}''
   \<and> save_interrupted example_dumps
         \<lparr> cache_path = ''seen_repos.json'', cache_days = 30, data = [] \<rparr> example_files 1
         ''seen_repos.json'' = Some []
   \<and> example_dumps [] = ''{}''
   \<and> RepoCache_init example_loads example_files ''seen_repos.json'' 30
       = Inr \<lparr> cache_path = ''seen_repos.json'', cache_days = 30,
               data = [(''o/r'', ''2026-10-30'')] \<rparr>
   \<and> RepoCache_init example_loads
         (save_interrupted example_dumps
            \<lparr> cache_path = ''seen_repos.json'', cache_days = 30, data = [] \<rparr> example_files 1)
         ''seen_repos.json'' 30
       = Inr \<lparr> cache_path = ''seen_repos.json'', cache_days = 30, data = [] \<rparr>"
  by (simp add: save_interrupted_def write_text_operations_def run_operations_def
      example_files_def example_dumps_def example_loads_def RepoCache_init_def)

end
